theory Spec2Isabelle
  imports Main
begin

section \<open>Rectangle\<close>

text \<open>
  \<^verbatim>\<open>function Rectangle(width, height)\<close> stores its two arguments and a closure
  \<^verbatim>\<open>getArea = () => this.width * this.height\<close> that reads the fields of the object at
  the time of the call. The number type is left open: any type with a multiplication.
  \<open>getArea\<close> returns the product together with the object as the call leaves it.
\<close>

record 'a rectangle =
  width :: 'a
  height :: 'a

definition Rectangle :: "'a \<Rightarrow> 'a \<Rightarrow> 'a rectangle" where
  "Rectangle w h = \<lparr>width = w, height = h\<rparr>"

definition getArea :: "'a::times rectangle \<Rightarrow> 'a \<times> 'a rectangle" where
  "getArea this = (width this * height this, this)"

text \<open>
  Strict equality \<open>===\<close> on numbers. A number is NaN, one of the two zeros, or another
  value (left open). \<open>x === y\<close> is false when either side is NaN; otherwise it is true
  when both are the same value, and for the two zeros against each other.
\<close>

datatype 'a number = NaN | PosZero | NegZero | Other 'a

definition strict_equals :: "'a number \<Rightarrow> 'a number \<Rightarrow> bool" where
  "strict_equals x y =
     (x \<noteq> NaN \<and> y \<noteq> NaN
      \<and> (x = y \<or> (x = PosZero \<and> y = NegZero) \<or> (x = NegZero \<and> y = PosZero)))"

section \<open>JSON: the values and the built-ins getJSON and fromJSON call\<close>



subsection \<open>JSON.stringify\<close>

text \<open>
  \<open>QuoteJSONString\<close>: the text between double quotes, with the double quote, the
  backslash and the control characters escaped (backspace, tab, line feed, form feed and
  carriage return by their letter, the other code units below U+0020 by their four
  hexadecimal digits).
\<close>

definition dquote :: char where "dquote = CHR 0x22"

definition backslash :: char where "backslash = CHR 0x5C"

definition hex_digit :: "nat \<Rightarrow> char" where
  "hex_digit n = ''0123456789abcdef'' ! n"

definition unicode_escape :: "char \<Rightarrow> string" where
  "unicode_escape c =
     (let n = (of_char c :: nat)
      in [backslash, CHR ''u'', hex_digit (n div 4096), hex_digit (n div 256 mod 16),
          hex_digit (n div 16 mod 16), hex_digit (n mod 16)])"

definition escape :: "char \<Rightarrow> string" where
  "escape c =
     (if c = CHR 0x08 then [backslash, CHR ''b'']
      else if c = CHR 0x09 then [backslash, CHR ''t'']
      else if c = CHR 0x0A then [backslash, CHR ''n'']
      else if c = CHR 0x0C then [backslash, CHR ''f'']
      else if c = CHR 0x0D then [backslash, CHR ''r'']
      else if c = dquote then [backslash, dquote]
      else if c = backslash then [backslash, backslash]
      else if (of_char c :: nat) < 32 then unicode_escape c
      else [c])"

definition QuoteJSONString :: "string \<Rightarrow> string" where
  "QuoteJSONString s = [dquote] @ concat (map escape s) @ [dquote]"

text \<open>
  The text of a value, with no replacer and no indentation: the elements of an array and
  the members of an object are separated by commas, a member is its quoted key, a colon
  and its value.
\<close>

fun commas :: "string list \<Rightarrow> string" where
  "commas [] = []"
| "commas [x] = x"
| "commas (x # y # ys) = x @ '','' @ commas (y # ys)"


subsection \<open>JSON.parse\<close>




















subsection \<open>Object.setPrototypeOf, getJSON and fromJSON\<close>













section \<open>The selector builder: data\<close>

text \<open>
  A JavaScript string is a \<open>string\<close>; a \<open>char\<close> is read as a code unit in the range
  U+0000 to U+00FF. A field that was never assigned is \<open>None\<close>. The two arrays
  \<open>myClasses\<close> and \<open>myPseudoClasses\<close> are created by the constructor and are owned by
  their object; \<open>subBuilders\<close> holds what \<open>combine\<close> pushed: references to other
  selector objects (addresses of the store) and combinator texts.
\<close>

datatype field = MyElement | MyId | MyClasses | MyAttr | MyPseudoClasses | MyPseudoElement

datatype item = Selector nat | Text string

record MyCssSelector =
  myElement :: "string option"
  myId :: "string option"
  myClasses :: "string list"
  myAttr :: "string option"
  myPseudoClasses :: "string list"
  myPseudoElement :: "string option"
  subBuilders :: "item list"

text \<open>
  The code throws \<open>Error\<close> with one of two messages: "Selector parts should be arranged
  in the following order ..." (\<open>OrderViolation\<close>) and "Element, id and pseudo-element
  should not occur more then one time inside the selector" (\<open>DuplicateFragment\<close>).
\<close>

datatype error = OrderViolation | DuplicateFragment

text \<open>
  \<open>this.order\<close> is assigned by the constructor and never written again, so it is a
  constant here.
\<close>

definition order :: "field list" where
  "order = [MyElement, MyId, MyClasses, MyAttr, MyPseudoClasses, MyPseudoElement]"

definition constructor :: MyCssSelector where
  "constructor = \<lparr>myElement = None, myId = None, myClasses = [], myAttr = None,
     myPseudoClasses = [], myPseudoElement = None, subBuilders = []\<rparr>"

section \<open>JavaScript primitives the class uses\<close>

text \<open>\<open>Array.prototype.indexOf\<close>: the first index of the value, or \<open>-1\<close>.\<close>

fun indexOf :: "'a list \<Rightarrow> 'a \<Rightarrow> int" where
  "indexOf [] x = - 1"
| "indexOf (y # ys) x =
     (if y = x then 0 else (let i = indexOf ys x in if i < 0 then - 1 else i + 1))"

text \<open>\<open>Array.prototype.slice(start)\<close>: a negative start counts from the end.\<close>

definition slice :: "'a list \<Rightarrow> int \<Rightarrow> 'a list" where
  "slice xs start =
     (if start < 0 then drop (nat (max 0 (int (length xs) + start))) xs
      else drop (nat start) xs)"

text \<open>Truthiness of a string field: assigned, and not the empty string.\<close>

definition truthy :: "string option \<Rightarrow> bool" where
  "truthy v = (case v of None \<Rightarrow> False | Some s \<Rightarrow> s \<noteq> [])"

text \<open>
  White space and line terminators among the code units below U+0100: TAB, LF, VT, FF,
  CR, SP and NBSP. \<open>String.prototype.trim\<close> removes them at both ends.
\<close>

definition is_white_space :: "char \<Rightarrow> bool" where
  "is_white_space c = (of_char c \<in> {9, 10, 11, 12, 13, 32, 160 :: nat})"

definition trim :: "string \<Rightarrow> string" where
  "trim s = rev (dropWhile is_white_space (rev (dropWhile is_white_space s)))"

section \<open>The methods of MyCssSelector\<close>

text \<open>
  A method is a function of the receiver's state (\<open>this\<close>) that returns what the call
  did, \<open>Inl\<close> an error thrown or \<open>Inr ()\<close> for \<open>return this\<close>, together with the
  receiver's state as the call leaves it.
\<close>

text \<open>\<^verbatim>\<open>this[item] && this[item].length\<close>\<close>

fun populated :: "field \<Rightarrow> MyCssSelector \<Rightarrow> bool" where
  "populated MyElement this = (truthy (myElement this) \<and> length (the (myElement this)) \<noteq> 0)"
| "populated MyId this = (truthy (myId this) \<and> length (the (myId this)) \<noteq> 0)"
| "populated MyClasses this = (length (myClasses this) \<noteq> 0)"
| "populated MyAttr this = (truthy (myAttr this) \<and> length (the (myAttr this)) \<noteq> 0)"
| "populated MyPseudoClasses this = (length (myPseudoClasses this) \<noteq> 0)"
| "populated MyPseudoElement this =
     (truthy (myPseudoElement this) \<and> length (the (myPseudoElement this)) \<noteq> 0)"

definition checkAfterElemsExist :: "field \<Rightarrow> MyCssSelector \<Rightarrow> error + unit" where
  "checkAfterElemsExist name this =
     (let idx = indexOf order name;
          arr = slice order (idx + 1);
          found = find (\<lambda>item. populated item this) arr
      in case found of Some _ \<Rightarrow> Inl OrderViolation | None \<Rightarrow> Inr ())"

definition combine :: "item \<Rightarrow> item \<Rightarrow> item \<Rightarrow> MyCssSelector \<Rightarrow> (error + unit) \<times> MyCssSelector" where
  "combine selector1 combinator selector2 this =
     (Inr (), this\<lparr>subBuilders := subBuilders this @ [selector1, combinator, selector2]\<rparr>)"

definition element :: "string \<Rightarrow> MyCssSelector \<Rightarrow> (error + unit) \<times> MyCssSelector" where
  "element elem this =
     (case checkAfterElemsExist MyElement this of
        Inl e \<Rightarrow> (Inl e, this)
      | Inr _ \<Rightarrow>
          if truthy (myElement this) then (Inl DuplicateFragment, this)
          else (Inr (), this\<lparr>myElement := Some elem\<rparr>))"

definition getElement :: "MyCssSelector \<Rightarrow> string" where
  "getElement this = (if truthy (myElement this) then the (myElement this) else [])"

definition id' :: "string \<Rightarrow> MyCssSelector \<Rightarrow> (error + unit) \<times> MyCssSelector" where
  "id' val this =
     (case checkAfterElemsExist MyId this of
        Inl e \<Rightarrow> (Inl e, this)
      | Inr _ \<Rightarrow>
          if truthy (myId this) then (Inl DuplicateFragment, this)
          else (Inr (), this\<lparr>myId := Some val\<rparr>))"

definition getId :: "MyCssSelector \<Rightarrow> string" where
  "getId this = (if truthy (myId this) then ''#'' @ the (myId this) else [])"

definition attr :: "string \<Rightarrow> MyCssSelector \<Rightarrow> (error + unit) \<times> MyCssSelector" where
  "attr val this =
     (case checkAfterElemsExist MyAttr this of
        Inl e \<Rightarrow> (Inl e, this)
      | Inr _ \<Rightarrow> (Inr (), this\<lparr>myAttr := Some val\<rparr>))"

definition getAttr :: "MyCssSelector \<Rightarrow> string" where
  "getAttr this = (if truthy (myAttr this) then ''['' @ the (myAttr this) @ '']'' else [])"

definition pseudoClass :: "string \<Rightarrow> MyCssSelector \<Rightarrow> (error + unit) \<times> MyCssSelector" where
  "pseudoClass val this =
     (case checkAfterElemsExist MyPseudoClasses this of
        Inl e \<Rightarrow> (Inl e, this)
      | Inr _ \<Rightarrow> (Inr (), this\<lparr>myPseudoClasses := myPseudoClasses this @ [val]\<rparr>))"

definition getPseudoClass :: "MyCssSelector \<Rightarrow> string" where
  "getPseudoClass this = foldl (\<lambda>acc cl. acc @ '':'' @ cl) [] (myPseudoClasses this)"

definition pseudoElement :: "string \<Rightarrow> MyCssSelector \<Rightarrow> (error + unit) \<times> MyCssSelector" where
  "pseudoElement val this =
     (if truthy (myPseudoElement this) then (Inl DuplicateFragment, this)
      else (Inr (), this\<lparr>myPseudoElement := Some val\<rparr>))"

definition getPseudoElement :: "MyCssSelector \<Rightarrow> string" where
  "getPseudoElement this =
     (if truthy (myPseudoElement this) then ''::'' @ the (myPseudoElement this) else [])"

definition class' :: "string \<Rightarrow> MyCssSelector \<Rightarrow> (error + unit) \<times> MyCssSelector" where
  "class' val this =
     (case checkAfterElemsExist MyClasses this of
        Inl e \<Rightarrow> (Inl e, this)
      | Inr _ \<Rightarrow> (Inr (), this\<lparr>myClasses := myClasses this @ [val]\<rparr>))"

definition getClass :: "MyCssSelector \<Rightarrow> string" where
  "getClass this = foldl (\<lambda>acc cl. acc @ ''.'' @ cl) [] (myClasses this)"

section \<open>The store and stringify\<close>

text \<open>
  Objects live in a store: the object with address \<open>a\<close> is \<open>h ! a\<close>, and \<open>new\<close>
  allocates the next address. \<open>stringify\<close> follows the references of \<open>subBuilders\<close>
  through the store; since a reference may lead back to the same object, the recursion
  is bounded by the depth of calls allowed, and \<open>None\<close> is a call that does not return
  a string.
\<close>

type_synonym store = "MyCssSelector list"

text \<open>The callback of \<open>reduce\<close> in \<open>stringify\<close>.\<close>

definition join :: "string \<Rightarrow> string \<Rightarrow> string" where
  "join acc res = (if length acc \<noteq> 0 then '' '' @ acc else []) @ '' '' @ res"

fun reduce :: "(nat \<Rightarrow> string option) \<Rightarrow> item list \<Rightarrow> string \<Rightarrow> string option" where
  "reduce str [] acc = Some acc"
| "reduce str (Selector a # items) acc =
     (case str a of None \<Rightarrow> None | Some res \<Rightarrow> reduce str items (join acc res))"
| "reduce str (Text s # items) acc = reduce str items (join acc s)"

definition render :: "MyCssSelector \<Rightarrow> string" where
  "render this =
     getElement this @ getId this @ getClass this @ getAttr this @ getPseudoClass this
       @ getPseudoElement this"

primrec stringify :: "nat \<Rightarrow> store \<Rightarrow> nat \<Rightarrow> string option" where
  "stringify 0 h this = None"
| "stringify (Suc depth) h this =
     (if this < length h then
        (if length (subBuilders (h ! this)) \<noteq> 0
         then map_option trim (reduce (stringify depth h) (subBuilders (h ! this)) [])
         else Some (render (h ! this)))
      else None)"

text \<open>
  \<open>new MyCssSelector()\<close>, and a method called on the object at an address of the store:
  the call returns \<open>this\<close>. A reference always points to a live object, so the
  address is below \<open>length h\<close> wherever a method is called.
\<close>

definition new :: "store \<Rightarrow> nat \<times> store" where
  "new h = (length h, h @ [constructor])"

definition invoke ::
  "(MyCssSelector \<Rightarrow> (error + unit) \<times> MyCssSelector) \<Rightarrow> nat \<Rightarrow> store \<Rightarrow> (error + nat) \<times> store" where
  "invoke m this h =
     (case m (h ! this) of
        (Inl e, s) \<Rightarrow> (Inl e, h[this := s])
      | (Inr _, s) \<Rightarrow> (Inr this, h[this := s]))"

section \<open>The facade cssSelectorBuilder\<close>

datatype call =
  Element string | Id string | Class string | Attr string | PseudoClass string
  | PseudoElement string | Combine item item item

fun perform :: "call \<Rightarrow> MyCssSelector \<Rightarrow> (error + unit) \<times> MyCssSelector" where
  "perform (Element v) = element v"
| "perform (Id v) = id' v"
| "perform (Class v) = class' v"
| "perform (Attr v) = attr v"
| "perform (PseudoClass v) = pseudoClass v"
| "perform (PseudoElement v) = pseudoElement v"
| "perform (Combine s1 c s2) = combine s1 c s2"

text \<open>Each entry of the facade is \<open>new MyCssSelector().m(...)\<close>.\<close>

definition cssSelectorBuilder :: "call \<Rightarrow> store \<Rightarrow> (error + nat) \<times> store" where
  "cssSelectorBuilder c h = (case new h of (a, h1) \<Rightarrow> invoke (perform c) a h1)"

text \<open>
  A fluent chain \<open>x.m1(...).m2(...)\<close>: every method returns \<open>this\<close>, so the calls
  run one after the other on the same receiver, and the first throw ends the chain.
\<close>

fun run :: "call list \<Rightarrow> MyCssSelector \<Rightarrow> (error + unit) \<times> MyCssSelector" where
  "run [] this = (Inr (), this)"
| "run (c # cs) this =
     (case perform c this of
        (Inl e, s) \<Rightarrow> (Inl e, s)
      | (Inr _, s) \<Rightarrow> run cs s)"

definition chain :: "call list \<Rightarrow> nat \<Rightarrow> store \<Rightarrow> (error + nat) \<times> store" where
  "chain cs this h = invoke (run cs) this h"

text \<open>\<open>cssSelectorBuilder.m1(...).m2(...)\<close>\<close>

definition build :: "call \<Rightarrow> call list \<Rightarrow> store \<Rightarrow> (error + nat) \<times> store" where
  "build c cs h =
     (case cssSelectorBuilder c h of
        (Inl e, h1) \<Rightarrow> (Inl e, h1)
      | (Inr a, h1) \<Rightarrow> chain cs a h1)"

text \<open>The method of each fragment kind, and the canonical order of the kinds.\<close>

fun fragment :: "field \<Rightarrow> string \<Rightarrow> call" where
  "fragment MyElement v = Element v"
| "fragment MyId v = Id v"
| "fragment MyClasses v = Class v"
| "fragment MyAttr v = Attr v"
| "fragment MyPseudoClasses v = PseudoClass v"
| "fragment MyPseudoElement v = PseudoElement v"

definition precedes :: "field \<Rightarrow> field \<Rightarrow> bool" where
  "precedes K L = (indexOf order K < indexOf order L)"

section \<open>Valid orderings and the text they stand for\<close>

text \<open>
  A valid ordering of fragment calls: element, id, attribute and pseudo-element at most
  once each (\<open>None\<close> is a step left out), any number of classes and of pseudo-classes,
  in the canonical order.
\<close>

definition once :: "(string \<Rightarrow> call) \<Rightarrow> string option \<Rightarrow> call list" where
  "once m v = (case v of None \<Rightarrow> [] | Some s \<Rightarrow> [m s])"

definition canonical ::
  "string option \<Rightarrow> string option \<Rightarrow> string list \<Rightarrow> string option \<Rightarrow> string list
     \<Rightarrow> string option \<Rightarrow> call list" where
  "canonical e i cs a ps pe =
     once Element e @ once Id i @ map Class cs @ once Attr a @ map PseudoClass ps
       @ once PseudoElement pe"

text \<open>
  The text the specification gives for it: each fragment between its delimiters, an
  absent fragment the empty string, nothing in between.
\<close>

definition delimited :: "string \<Rightarrow> string option \<Rightarrow> string \<Rightarrow> string" where
  "delimited l v r = (case v of None \<Rightarrow> [] | Some s \<Rightarrow> l @ s @ r)"

definition concatenation ::
  "string option \<Rightarrow> string option \<Rightarrow> string list \<Rightarrow> string option \<Rightarrow> string list
     \<Rightarrow> string option \<Rightarrow> string" where
  "concatenation e i cs a ps pe =
     delimited [] e [] @ delimited ''#'' i [] @ concat (map (\<lambda>c. ''.'' @ c) cs)
       @ delimited ''['' a '']'' @ concat (map (\<lambda>p. '':'' @ p) ps)
       @ delimited ''::'' pe []"

section \<open>Combining through the facade\<close>

text \<open>
  \<open>cssSelectorBuilder.combine(a, c, b)\<close> on two selector objects and a combinator
  string; a text is clean at an end when it is not empty and has no white space there.
\<close>

definition starts_clean :: "string \<Rightarrow> bool" where
  "starts_clean s = (case s of [] \<Rightarrow> False | x # _ \<Rightarrow> \<not> is_white_space x)"

definition ends_clean :: "string \<Rightarrow> bool" where
  "ends_clean s = starts_clean (rev s)"

definition builder_combine :: "nat \<Rightarrow> string \<Rightarrow> nat \<Rightarrow> store \<Rightarrow> (error + nat) \<times> store" where
  "builder_combine a c b h = cssSelectorBuilder (Combine (Selector a) (Text c) (Selector b)) h"

section \<open>Fragment calls and references between nodes\<close>

text \<open>
  The fragment calls are all calls but combine. A node reaches another when it is that
  node or one of the selector objects in its \<open>subBuilders\<close> reaches it, within the
  given number of steps.
\<close>

fun is_fragment :: "call \<Rightarrow> bool" where
  "is_fragment (Combine s1 c s2) = False"
| "is_fragment _ = True"



section \<open>The order check, case by case\<close>

lemma indexOf_order [simp]:
  "indexOf order MyElement = 0" "indexOf order MyId = 1" "indexOf order MyClasses = 2"
  "indexOf order MyAttr = 3" "indexOf order MyPseudoClasses = 4" "indexOf order MyPseudoElement = 5"
  by (simp_all add: order_def)

lemma truthy_simps [simp]:
  "truthy None = False" "truthy (Some s) = (s \<noteq> [])"
  by (simp_all add: truthy_def)

lemma populated_truthy:
  "populated MyElement this = truthy (myElement this)"
  "populated MyId this = truthy (myId this)"
  "populated MyAttr this = truthy (myAttr this)"
  "populated MyPseudoElement this = truthy (myPseudoElement this)"
  "populated MyClasses this = (myClasses this \<noteq> [])"
  "populated MyPseudoClasses this = (myPseudoClasses this \<noteq> [])"
  by (auto simp: truthy_def split: option.splits)

lemma ex_field:
  "(\<exists>L. P L) = (P MyElement \<or> P MyId \<or> P MyClasses \<or> P MyAttr \<or> P MyPseudoClasses \<or> P MyPseudoElement)"
  by (metis field.exhaust)

lemma check_MyElement:
  "checkAfterElemsExist MyElement this =
     (if populated MyId this \<or> populated MyClasses this \<or> populated MyAttr this
         \<or> populated MyPseudoClasses this \<or> populated MyPseudoElement this
      then Inl OrderViolation else Inr ())"
  by (simp add: checkAfterElemsExist_def slice_def order_def)

lemma check_MyId:
  "checkAfterElemsExist MyId this =
     (if populated MyClasses this \<or> populated MyAttr this
         \<or> populated MyPseudoClasses this \<or> populated MyPseudoElement this
      then Inl OrderViolation else Inr ())"
  by (simp add: checkAfterElemsExist_def slice_def order_def)

lemma check_MyClasses:
  "checkAfterElemsExist MyClasses this =
     (if populated MyAttr this
         \<or> populated MyPseudoClasses this \<or> populated MyPseudoElement this
      then Inl OrderViolation else Inr ())"
  by (simp add: checkAfterElemsExist_def slice_def order_def)

lemma check_MyAttr:
  "checkAfterElemsExist MyAttr this =
     (if populated MyPseudoClasses this \<or> populated MyPseudoElement this
      then Inl OrderViolation else Inr ())"
  by (simp add: checkAfterElemsExist_def slice_def order_def)

lemma check_MyPseudoClasses:
  "checkAfterElemsExist MyPseudoClasses this =
     (if populated MyPseudoElement this then Inl OrderViolation else Inr ())"
  by (simp add: checkAfterElemsExist_def slice_def order_def)

lemma check_MyPseudoElement:
  "checkAfterElemsExist MyPseudoElement this = Inr ()"
  by (simp add: checkAfterElemsExist_def slice_def order_def)

lemmas check_simps = check_MyElement check_MyId check_MyClasses check_MyAttr
  check_MyPseudoClasses check_MyPseudoElement

lemma check_iff:
  "checkAfterElemsExist K this = Inl OrderViolation \<longleftrightarrow> (\<exists>L. precedes K L \<and> populated L this)"
  by (cases K) (simp_all add: check_simps precedes_def ex_field)

lemma check_cases:
  "checkAfterElemsExist K this = Inl OrderViolation \<or> checkAfterElemsExist K this = Inr ()"
  by (cases K) (simp_all add: check_simps)

section \<open>Rectangle: the constructor and getArea\<close>

text \<open>
  C9, amended. For all numbers \<open>w\<close> and \<open>h\<close>, the object built by
  \<open>new Rectangle(w, h)\<close> holds \<open>w\<close> as its width and \<open>h\<close> as its height, so
  \<open>width === w\<close> exactly when \<open>w\<close> is not NaN and \<open>height === h\<close> exactly when
  \<open>h\<close> is not NaN; its \<open>getArea()\<close> returns \<open>w * h\<close>, whatever the multiplication
  of the numbers is, and the call leaves width and height as they were.
\<close>

theorem Rectangle_getArea:
  "width (Rectangle w h) = w \<and> height (Rectangle w h) = h
   \<and> strict_equals (width (Rectangle x y)) x = (x \<noteq> NaN)
   \<and> strict_equals (height (Rectangle x y)) y = (y \<noteq> NaN)
   \<and> fst (getArea (Rectangle w h)) = w * h
   \<and> width (snd (getArea (Rectangle w h))) = w
   \<and> height (snd (getArea (Rectangle w h))) = h"
  by (simp add: Rectangle_def getArea_def strict_equals_def)

theorem Rectangle_getArea_witness:
  "strict_equals (width (Rectangle (Other (10::int)) (Other 20))) (Other 10)
   \<and> strict_equals (height (Rectangle (Other (10::int)) (Other 20))) (Other 20)
   \<and> fst (getArea (Rectangle (10::int) 20)) = 200
   \<and> snd (getArea (Rectangle (10::int) 20)) = Rectangle 10 20"
proof -
  have n: "Other (10::int) \<noteq> NaN" "Other (20::int) \<noteq> NaN"
    by simp_all
  have r: "snd (getArea (Rectangle (10::int) 20)) = Rectangle 10 20"
    by (simp add: getArea_def)
  show ?thesis
    using n r Rectangle_getArea [of "10::int" 20 "Other (10::int)" "Other 20"] by simp
qed

theorem Rectangle_NaN_counterexample:
  "\<not> strict_equals (width (Rectangle (NaN :: int number) (Other 20))) NaN"
  by (simp add: strict_equals_def)

section \<open>getJSON and fromJSON: the round trip\<close>

















lemma parse_chars_QuoteJSONString:
  "QuoteJSONString s @ rest = dquote # concat (map escape s) @ dquote # rest"
  by (simp add: QuoteJSONString_def)











lemma commas_head:
  "t = c # u \<Longrightarrow> \<exists>w. commas (t # ts) = c # w"
  by (cases ts) simp_all




















section \<open>Throws come before every write\<close>

lemma perform_throw_keeps:
  "fst (perform c this) = Inl e \<Longrightarrow> snd (perform c this) = this"
  by (cases c)
     (auto simp: element_def id'_def class'_def attr_def pseudoClass_def pseudoElement_def
        combine_def split: sum.splits if_splits)

text \<open>
  C6. When a fragment call throws, the receiver is exactly what it was before the call:
  the state the call leaves is the state it found, and so is the whole store.
\<close>

theorem throwing_call_changes_nothing:
  assumes "fst (perform (fragment K v) this) = Inl e"
  shows "snd (perform (fragment K v) this) = this
         \<and> (\<forall>h a. a < length h \<and> h ! a = this
               \<longrightarrow> invoke (perform (fragment K v)) a h = (Inl e, h))"
proof -
  have s: "snd (perform (fragment K v) this) = this"
    using assms by (rule perform_throw_keeps)
  have "invoke (perform (fragment K v)) a h = (Inl e, h)" if "a < length h" "h ! a = this" for a h
    using that assms s by (auto simp: invoke_def split: prod.splits sum.splits)
  with s show ?thesis
    by blast
qed

theorem throwing_call_changes_nothing_witness:
  "fst (perform (fragment MyElement ''p'') (constructor\<lparr>myId := Some ''x''\<rparr>)) = Inl OrderViolation
   \<and> snd (perform (fragment MyElement ''p'') (constructor\<lparr>myId := Some ''x''\<rparr>))
       = constructor\<lparr>myId := Some ''x''\<rparr>
   \<and> invoke (perform (fragment MyElement ''p'')) 0 [constructor\<lparr>myId := Some ''x''\<rparr>]
       = (Inl OrderViolation, [constructor\<lparr>myId := Some ''x''\<rparr>])"
proof -
  have t: "fst (perform (fragment MyElement ''p'') (constructor\<lparr>myId := Some ''x''\<rparr>))
             = Inl OrderViolation"
    by (simp add: element_def constructor_def check_simps populated_truthy)
  show ?thesis
    using t throwing_call_changes_nothing [OF t] by simp
qed

section \<open>Order violations\<close>

lemma fragment_order_violation:
  assumes "precedes K L" and "populated L this"
  shows "perform (fragment K v) this = (Inl OrderViolation, this)"
proof -
  have "checkAfterElemsExist K this = Inl OrderViolation"
    using assms check_iff by blast
  moreover have "K \<noteq> MyPseudoElement"
    using assms(1) by (cases L) (auto simp: precedes_def)
  ultimately show ?thesis
    by (cases K) (simp_all add: element_def id'_def class'_def attr_def pseudoClass_def)
qed

lemma populated_after_set:
  assumes "perform (fragment L w) this0 = (Inr (), this)"
    and "w \<noteq> [] \<or> L = MyClasses \<or> L = MyPseudoClasses"
  shows "populated L this"
  using assms
  by (cases L)
     (auto simp: element_def id'_def class'_def attr_def pseudoClass_def pseudoElement_def
        populated_truthy split: sum.splits if_splits)

text \<open>
  C3, amended. Let kind \<open>K\<close> precede kind \<open>L\<close> in the canonical order. If the field of
  \<open>L\<close> is populated on the node (a non-empty string, or a non-empty list), which is the
  case right after a call of \<open>L\<close>'s perform that passed a non-empty string, and after
  every successful class or pseudo-class call, then the perform of \<open>K\<close> throws the order
  error whatever value it is given, and leaves the node as it was.
\<close>

theorem earlier_kind_after_later_raises:
  assumes "precedes K L"
    and "populated L this
         \<or> (\<exists>this0 w. perform (fragment L w) this0 = (Inr (), this)
               \<and> (w \<noteq> [] \<or> L = MyClasses \<or> L = MyPseudoClasses))"
  shows "perform (fragment K v) this = (Inl OrderViolation, this)"
  using assms fragment_order_violation populated_after_set by blast


theorem earlier_kind_after_later_raises_witness:
  "precedes MyElement MyPseudoElement
   \<and> populated MyPseudoElement (snd (perform (PseudoElement ''after'') constructor))
   \<and> perform (fragment MyElement ''div'') (snd (perform (PseudoElement ''after'') constructor))
       = (Inl OrderViolation, snd (perform (PseudoElement ''after'') constructor))"
proof -
  have p: "precedes MyElement MyPseudoElement"
    by (simp add: precedes_def)
  have q: "populated MyPseudoElement (snd (perform (PseudoElement ''after'') constructor))"
    by (simp add: pseudoElement_def constructor_def)
  show ?thesis
    using p q earlier_kind_after_later_raises [OF p disjI1 [OF q], of "''div''"] by simp
qed

theorem empty_later_fragment_counterexample:
  "precedes MyElement MyPseudoElement
   \<and> fst (perform (fragment MyPseudoElement []) constructor) = Inr ()
   \<and> fst (perform (fragment MyElement ''div'')
            (snd (perform (fragment MyPseudoElement []) constructor))) = Inr ()"
  by (simp add: precedes_def pseudoElement_def element_def constructor_def check_simps)

section \<open>Duplicates\<close>

lemma perform_keeps_singletons:
  assumes "perform c this = (Inr (), s)"
  shows "truthy (myElement this) \<Longrightarrow> truthy (myElement s)"
    and "truthy (myId this) \<Longrightarrow> truthy (myId s)"
    and "truthy (myPseudoElement this) \<Longrightarrow> truthy (myPseudoElement s)"
  using assms
  by (cases c;
      auto simp: element_def id'_def class'_def attr_def pseudoClass_def pseudoElement_def
        combine_def split: sum.splits if_splits)+

lemma run_keeps_singletons:
  assumes "run cs this = (Inr (), s)"
  shows "truthy (myElement this) \<Longrightarrow> truthy (myElement s)"
    and "truthy (myId this) \<Longrightarrow> truthy (myId s)"
    and "truthy (myPseudoElement this) \<Longrightarrow> truthy (myPseudoElement s)"
  using assms
proof (induction cs arbitrary: this)
  case Nil
  { case 1 then show ?case by simp }
  { case 2 then show ?case by simp }
  { case 3 then show ?case by simp }
next
  case (Cons c cs)
  { case 1 then show ?case
      by (auto split: prod.splits sum.splits dest: perform_keeps_singletons(1) Cons.IH(1)) }
  { case 2 then show ?case
      by (auto split: prod.splits sum.splits dest: perform_keeps_singletons(2) Cons.IH(2)) }
  { case 3 then show ?case
      by (auto split: prod.splits sum.splits dest: perform_keeps_singletons(3) Cons.IH(3)) }
qed


lemma singleton_set_truthy:
  assumes "perform (fragment K v1) this0 = (Inr (), this1)" and "v1 \<noteq> []"
  shows "K = MyElement \<Longrightarrow> truthy (myElement this1)"
    and "K = MyId \<Longrightarrow> truthy (myId this1)"
    and "K = MyPseudoElement \<Longrightarrow> truthy (myPseudoElement this1)"
  using assms
  by (auto simp: element_def id'_def pseudoElement_def split: sum.splits if_splits)

text \<open>
  C4, amended. After element, id or pseudoElement was called with a non-empty string,
  and after any further successful calls on the node, calling the same perform again
  throws, whatever the value: the duplicate error when the order check finds no
  later kind populated (always so for pseudoElement, which has no order check), and the
  order error otherwise, since the order check runs first. The node stays as it was.
\<close>

theorem second_singleton_call_raises:
  assumes "K = MyElement \<or> K = MyId \<or> K = MyPseudoElement"
    and "v1 \<noteq> []"
    and "perform (fragment K v1) this0 = (Inr (), this1)"
    and "run cs this1 = (Inr (), this2)"
  shows "perform (fragment K v2) this2 =
           (Inl (if checkAfterElemsExist K this2 = Inr () then DuplicateFragment
                 else OrderViolation), this2)"
proof -
  consider "K = MyElement" | "K = MyId" | "K = MyPseudoElement"
    using assms(1) by blast
  then show ?thesis
  proof cases
    case 1
    then have "truthy (myElement this2)"
      using singleton_set_truthy(1) [OF assms(3) assms(2)] run_keeps_singletons(1) [OF assms(4)]
      by simp
    with 1 show ?thesis
      using check_cases [of MyElement this2] by (auto simp: element_def)
  next
    case 2
    then have "truthy (myId this2)"
      using singleton_set_truthy(2) [OF assms(3) assms(2)] run_keeps_singletons(2) [OF assms(4)]
      by simp
    with 2 show ?thesis
      using check_cases [of MyId this2] by (auto simp: id'_def)
  next
    case 3
    then have "truthy (myPseudoElement this2)"
      using singleton_set_truthy(3) [OF assms(3) assms(2)] run_keeps_singletons(3) [OF assms(4)]
      by simp
    with 3 show ?thesis
      by (simp add: pseudoElement_def check_simps)
  qed
qed

theorem second_singleton_call_raises_witness:
  "perform (fragment MyId ''main'') constructor
     = (Inr (), constructor\<lparr>myId := Some ''main''\<rparr>)
   \<and> run [Class ''container''] (constructor\<lparr>myId := Some ''main''\<rparr>)
     = (Inr (), constructor\<lparr>myId := Some ''main'', myClasses := [''container'']\<rparr>)
   \<and> perform (fragment MyId ''other'')
        (constructor\<lparr>myId := Some ''main'', myClasses := [''container'']\<rparr>)
     = (Inl OrderViolation, constructor\<lparr>myId := Some ''main'', myClasses := [''container'']\<rparr>)
   \<and> run [] (constructor\<lparr>myId := Some ''main''\<rparr>)
     = (Inr (), constructor\<lparr>myId := Some ''main''\<rparr>)
   \<and> perform (fragment MyId ''other'') (constructor\<lparr>myId := Some ''main''\<rparr>)
     = (Inl DuplicateFragment, constructor\<lparr>myId := Some ''main''\<rparr>)"
proof -
  have k: "MyId = MyElement \<or> MyId = MyId \<or> MyId = MyPseudoElement"
    by simp
  have v: "''main'' \<noteq> []"
    by simp
  have m: "perform (fragment MyId ''main'') constructor
             = (Inr (), constructor\<lparr>myId := Some ''main''\<rparr>)"
    by (simp add: id'_def constructor_def check_simps populated_truthy)
  have r: "run [Class ''container''] (constructor\<lparr>myId := Some ''main''\<rparr>)
             = (Inr (), constructor\<lparr>myId := Some ''main'', myClasses := [''container'']\<rparr>)"
    by (simp add: class'_def constructor_def check_simps populated_truthy)
  have r0: "run [] (constructor\<lparr>myId := Some ''main''\<rparr>)
             = (Inr (), constructor\<lparr>myId := Some ''main''\<rparr>)"
    by simp
  have c1: "checkAfterElemsExist MyId
              (constructor\<lparr>myId := Some ''main'', myClasses := [''container'']\<rparr>)
            = Inl OrderViolation"
    by (simp add: constructor_def check_simps populated_truthy)
  have c0: "checkAfterElemsExist MyId (constructor\<lparr>myId := Some ''main''\<rparr>) = Inr ()"
    by (simp add: constructor_def check_simps populated_truthy)
  show ?thesis
    using m r r0
      second_singleton_call_raises [OF k v m r, of "''other''"]
      second_singleton_call_raises [OF k v m r0, of "''other''"]
    by (simp add: c1 c0)
qed

theorem second_call_counterexample:
  "fst (run [Element ''a'', Id ''b''] constructor) = Inr ()
   \<and> fst (perform (Element ''c'') (snd (run [Element ''a'', Id ''b''] constructor)))
       = Inl OrderViolation
   \<and> fst (perform (Element []) constructor) = Inr ()
   \<and> fst (perform (Element ''c'') (snd (perform (Element []) constructor))) = Inr ()"
  by (simp add: element_def id'_def constructor_def check_simps populated_truthy)

section \<open>A second attr\<close>

text \<open>
  C10, amended. attr never throws the duplicate error. It throws the order error
  when a pseudo-class or the pseudo-element is populated on the node; otherwise it
  stores the new value over the old one, so a second attr right after a first
  leaves the node as the second alone would. When the node has no sub-builders, its
  stringify() after such a call shows the last value only, between brackets, and
  nothing of the value before (and no brackets at all when the last value is the empty
  string).
\<close>

theorem attr_overwrites:
  "fst (attr v this) \<noteq> Inl DuplicateFragment
   \<and> attr v this =
       (if populated MyPseudoClasses this \<or> populated MyPseudoElement this
        then (Inl OrderViolation, this)
        else (Inr (), this\<lparr>myAttr := Some v\<rparr>))
   \<and> (attr v0 this = (Inr (), s) \<longrightarrow> attr v s = (Inr (), this\<lparr>myAttr := Some v\<rparr>))
   \<and> (a < length h \<and> h ! a = this \<and> subBuilders this = []
        \<and> fst (invoke (attr v) a h) = Inr a \<longrightarrow>
        stringify (Suc d) (snd (invoke (attr v) a h)) a =
          Some (getElement this @ getId this @ getClass this
                 @ (if v = [] then [] else ''['' @ v @ '']'')
                 @ getPseudoClass this @ getPseudoElement this))"
proof -
  have r: "render (this\<lparr>myAttr := Some v\<rparr>) =
       getElement this @ getId this @ getClass this
         @ (if v = [] then [] else ''['' @ v @ '']'')
         @ getPseudoClass this @ getPseudoElement this"
    by (simp add: render_def getAttr_def getElement_def getId_def
        getClass_def getPseudoClass_def getPseudoElement_def)
  have one: "attr v this =
       (if populated MyPseudoClasses this \<or> populated MyPseudoElement this
        then (Inl OrderViolation, this)
        else (Inr (), this\<lparr>myAttr := Some v\<rparr>))"
    by (simp add: attr_def check_simps)
  have two: "attr v s = (Inr (), this\<lparr>myAttr := Some v\<rparr>)" if "attr v0 this = (Inr (), s)"
    using that by (auto simp: attr_def check_simps populated_truthy split: if_splits)
  have three: "stringify (Suc d) (snd (invoke (attr v) a h)) a =
          Some (getElement this @ getId this @ getClass this
                 @ (if v = [] then [] else ''['' @ v @ '']'')
                 @ getPseudoClass this @ getPseudoElement this)"
    if "a < length h" "h ! a = this" "subBuilders this = []" "fst (invoke (attr v) a h) = Inr a"
  proof -
    have "attr v this = (Inr (), this\<lparr>myAttr := Some v\<rparr>)"
      using that(2,4) one by (auto simp: invoke_def split: if_splits)
    then have "snd (invoke (attr v) a h) = h[a := this\<lparr>myAttr := Some v\<rparr>]"
      using that(2) by (simp add: invoke_def)
    then show ?thesis
      using that(1,3) r by simp
  qed
  show ?thesis
    using one two three by (simp del: stringify.simps)
qed

theorem attr_overwrites_witness:
  "attr ''href'' (constructor\<lparr>myElement := Some ''a''\<rparr>)
     = (Inr (), constructor\<lparr>myElement := Some ''a'', myAttr := Some ''href''\<rparr>)
   \<and> attr ''src'' (constructor\<lparr>myElement := Some ''a'', myAttr := Some ''href''\<rparr>)
     = (Inr (), constructor\<lparr>myElement := Some ''a'', myAttr := Some ''src''\<rparr>)
   \<and> (0::nat) < length [constructor\<lparr>myElement := Some ''a'', myAttr := Some ''href''\<rparr>]
   \<and> subBuilders (constructor\<lparr>myElement := Some ''a'', myAttr := Some ''href''\<rparr>) = []
   \<and> fst (invoke (attr ''src'') 0 [constructor\<lparr>myElement := Some ''a'', myAttr := Some ''href''\<rparr>])
       = Inr 0
   \<and> stringify (Suc 0)
        (snd (invoke (attr ''src'') 0 [constructor\<lparr>myElement := Some ''a'', myAttr := Some ''href''\<rparr>])) 0
       = Some ''a[src]''"
proof -
  let ?t = "constructor\<lparr>myElement := Some ''a''\<rparr>"
  let ?s = "constructor\<lparr>myElement := Some ''a'', myAttr := Some ''href''\<rparr>"
  have f: "attr ''href'' ?t = (Inr (), ?s)"
    by (simp add: attr_def constructor_def check_simps populated_truthy)
  have l: "(0::nat) < length [?s]" "[?s] ! 0 = ?s"
    by simp_all
  have b: "subBuilders ?s = []"
    by (simp add: constructor_def)
  have u: "?s\<lparr>myAttr := Some ''src''\<rparr> = ?t\<lparr>myAttr := Some ''src''\<rparr>"
    by simp
  note w = attr_overwrites [of "''src''" ?t "''href''" ?s]
  have g: "attr ''src'' ?s = (Inr (), ?t\<lparr>myAttr := Some ''src''\<rparr>)"
    using w f by blast
  have i: "fst (invoke (attr ''src'') 0 [?s]) = Inr 0"
    using g by (simp add: invoke_def)
  have e: "getElement ?s @ getId ?s @ getClass ?s @ (if ''src'' = [] then [] else ''['' @ ''src'' @ '']'')
             @ getPseudoClass ?s @ getPseudoElement ?s = ''a[src]''"
    by (simp add: constructor_def getElement_def getId_def getClass_def getPseudoClass_def
          getPseudoElement_def)
  note x = attr_overwrites [of "''src''" ?s _ _ 0 "[?s]" 0]
  have j: "stringify (Suc 0) (snd (invoke (attr ''src'') 0 [?s])) 0 = Some ''a[src]''"
    using x l b i unfolding e by blast
  show ?thesis
    using f g l(1) b i j by simp
qed

theorem second_attr_counterexample:
  "fst (run [Attr ''a'', PseudoClass ''p''] constructor) = Inr ()
   \<and> fst (perform (Attr ''b'') (snd (run [Attr ''a'', PseudoClass ''p''] constructor)))
       = Inl OrderViolation"
  by (simp add: attr_def pseudoClass_def constructor_def check_simps populated_truthy)

section \<open>Rendering a simple selector\<close>

lemma run_append:
  "run (xs @ ys) s =
     (case run xs s of (Inl e, s') \<Rightarrow> (Inl e, s') | (Inr _, s') \<Rightarrow> run ys s')"
  by (induction xs arbitrary: s) (auto split: prod.splits sum.splits)

lemma run_append_ok:
  "run xs s = (Inr (), s') \<Longrightarrow> run (xs @ ys) s = run ys s'"
  by (simp add: run_append)

lemma run_classes:
  "\<not> populated MyAttr s \<Longrightarrow> \<not> populated MyPseudoClasses s \<Longrightarrow> \<not> populated MyPseudoElement s
   \<Longrightarrow> run (map Class cs) s = (Inr (), s\<lparr>myClasses := myClasses s @ cs\<rparr>)"
  by (induction cs arbitrary: s) (simp_all add: class'_def check_simps populated_truthy)

lemma run_pseudoClasses:
  "\<not> populated MyPseudoElement s
   \<Longrightarrow> run (map PseudoClass ps) s = (Inr (), s\<lparr>myPseudoClasses := myPseudoClasses s @ ps\<rparr>)"
  by (induction ps arbitrary: s) (simp_all add: pseudoClass_def check_simps populated_truthy)

lemma run_once_Element:
  "run (once Element e) constructor = (Inr (), constructor\<lparr>myElement := e\<rparr>)"
  by (cases e) (simp_all add: once_def element_def check_simps populated_truthy constructor_def)

lemma run_once_Id:
  "run (once Id i) (constructor\<lparr>myElement := e\<rparr>)
     = (Inr (), constructor\<lparr>myElement := e, myId := i\<rparr>)"
  by (cases i) (simp_all add: once_def id'_def check_simps populated_truthy constructor_def)

lemma run_map_Class:
  "run (map Class cs) (constructor\<lparr>myElement := e, myId := i\<rparr>)
     = (Inr (), constructor\<lparr>myElement := e, myId := i, myClasses := cs\<rparr>)"
  by (simp add: run_classes populated_truthy constructor_def)

lemma run_once_Attr:
  "run (once Attr a) (constructor\<lparr>myElement := e, myId := i, myClasses := cs\<rparr>)
     = (Inr (), constructor\<lparr>myElement := e, myId := i, myClasses := cs, myAttr := a\<rparr>)"
  by (cases a) (simp_all add: once_def attr_def check_simps populated_truthy constructor_def)

lemma run_map_PseudoClass:
  "run (map PseudoClass ps) (constructor\<lparr>myElement := e, myId := i, myClasses := cs, myAttr := a\<rparr>)
     = (Inr (), constructor\<lparr>myElement := e, myId := i, myClasses := cs, myAttr := a,
          myPseudoClasses := ps\<rparr>)"
  by (simp add: run_pseudoClasses populated_truthy constructor_def)

lemma run_once_PseudoElement:
  "run (once PseudoElement pe)
       (constructor\<lparr>myElement := e, myId := i, myClasses := cs, myAttr := a,
          myPseudoClasses := ps\<rparr>)
     = (Inr (), constructor\<lparr>myElement := e, myId := i, myClasses := cs, myAttr := a,
          myPseudoClasses := ps, myPseudoElement := pe\<rparr>)"
  by (cases pe) (simp_all add: once_def pseudoElement_def constructor_def)

lemma run_canonical:
  "run (canonical e i cs a ps pe) constructor
     = (Inr (), constructor\<lparr>myElement := e, myId := i, myClasses := cs, myAttr := a,
          myPseudoClasses := ps, myPseudoElement := pe\<rparr>)"
  unfolding canonical_def
  by (simp only: run_append_ok [OF run_once_Element] run_append_ok [OF run_once_Id]
        run_append_ok [OF run_map_Class] run_append_ok [OF run_once_Attr]
        run_append_ok [OF run_map_PseudoClass] run_once_PseudoElement)

lemma foldl_prefix:
  "foldl (\<lambda>acc cl. acc @ p @ cl) acc cs = acc @ concat (map (\<lambda>c. p @ c) cs)"
  by (induction cs arbitrary: acc) simp_all

lemma getClass_concat:
  "getClass this = concat (map (\<lambda>c. ''.'' @ c) (myClasses this))"
  unfolding getClass_def using foldl_prefix [of "''.''" "[]"] by simp

lemma getPseudoClass_concat:
  "getPseudoClass this = concat (map (\<lambda>p. '':'' @ p) (myPseudoClasses this))"
  unfolding getPseudoClass_def using foldl_prefix [of "'':''" "[]"] by simp

lemma render_canonical:
  assumes "i \<noteq> Some []" "a \<noteq> Some []" "pe \<noteq> Some []"
  shows "render (constructor\<lparr>myElement := e, myId := i, myClasses := cs, myAttr := a,
          myPseudoClasses := ps, myPseudoElement := pe\<rparr>) = concatenation e i cs a ps pe"
  using assms
  by (cases e; cases i; cases a; cases pe)
     (simp_all add: render_def concatenation_def delimited_def getElement_def getId_def
        getClass_concat getAttr_def getPseudoClass_concat getPseudoElement_def)

lemma build_run:
  "build c cs h =
     (case run (c # cs) constructor of
        (Inl e, s) \<Rightarrow> (Inl e, h @ [s])
      | (Inr _, s) \<Rightarrow> (Inr (length h), h @ [s]))"
  by (auto simp: build_def cssSelectorBuilder_def new_def invoke_def chain_def
        split: prod.splits sum.splits)


text \<open>
  C1, amended. For every simple selector built through the facade by a valid ordering of
  fragment calls in which the id, attribute and pseudo-element values, where given, are
  non-empty strings, every call of the chain succeeds and stringify() returns exactly
  the text of the specification: the element, \<open>#\<close> and the id, \<open>.\<close> and each class in
  append order, the attribute in brackets, \<open>:\<close> and each pseudo-class in append order,
  \<open>::\<close> and the pseudo-element, an absent fragment the empty string, no separators.
\<close>

theorem canonical_chain_stringify:
  assumes "i \<noteq> Some []" and "a \<noteq> Some []" and "pe \<noteq> Some []"
    and "canonical e i cs a ps pe = c # rest"
  shows "fst (build c rest h) = Inr (length h)
         \<and> stringify (Suc d) (snd (build c rest h)) (length h)
             = Some (concatenation e i cs a ps pe)"
proof -
  have "run (c # rest) constructor
          = (Inr (), constructor\<lparr>myElement := e, myId := i, myClasses := cs, myAttr := a,
               myPseudoClasses := ps, myPseudoElement := pe\<rparr>)"
    using run_canonical [of e i cs a ps pe] assms(4) by simp
  then have b: "build c rest h
          = (Inr (length h), h @ [constructor\<lparr>myElement := e, myId := i, myClasses := cs,
               myAttr := a, myPseudoClasses := ps, myPseudoElement := pe\<rparr>])"
    by (simp add: build_run)
  have "subBuilders (constructor\<lparr>myElement := e, myId := i, myClasses := cs,
               myAttr := a, myPseudoClasses := ps, myPseudoElement := pe\<rparr>) = []"
    by (simp add: constructor_def)
  then show ?thesis
    using b render_canonical [OF assms(1-3), where e = e and cs = cs and ps = ps] by simp
qed

theorem canonical_chain_stringify_witness:
  "canonical None (Some ''main'') [''container'', ''editable''] None [] None
     = Id ''main'' # [Class ''container'', Class ''editable'']
   \<and> fst (build (Id ''main'') [Class ''container'', Class ''editable''] []) = Inr 0
   \<and> stringify 1 (snd (build (Id ''main'') [Class ''container'', Class ''editable''] [])) 0
       = Some ''#main.container.editable''
   \<and> canonical (Some ''a'') None [] (Some ''href$=.png'') [''focus''] None
     = Element ''a'' # [Attr ''href$=.png'', PseudoClass ''focus'']
   \<and> stringify 1 (snd (build (Element ''a'') [Attr ''href$=.png'', PseudoClass ''focus''] [])) 0
       = Some ''a[href$=.png]:focus''"
proof -
  have n: "(None :: string option) \<noteq> Some []" and m: "Some ''main'' \<noteq> Some []"
    and r: "Some ''href$=.png'' \<noteq> Some []"
    by simp_all
  have c1: "canonical None (Some ''main'') [''container'', ''editable''] None [] None
              = Id ''main'' # [Class ''container'', Class ''editable'']"
    by (simp add: canonical_def once_def)
  have c2: "canonical (Some ''a'') None [] (Some ''href$=.png'') [''focus''] None
              = Element ''a'' # [Attr ''href$=.png'', PseudoClass ''focus'']"
    by (simp add: canonical_def once_def)
  have t1: "concatenation None (Some ''main'') [''container'', ''editable''] None [] None
              = ''#main.container.editable''"
    by (simp add: concatenation_def delimited_def)
  have t2: "concatenation (Some ''a'') None [] (Some ''href$=.png'') [''focus''] None
              = ''a[href$=.png]:focus''"
    by (simp add: concatenation_def delimited_def)
  show ?thesis
    using c1 c2
      canonical_chain_stringify [OF m n n c1, of "[]" 0]
      canonical_chain_stringify [OF n r n c2, of "[]" 0]
    by (simp add: t1 t2)
qed

theorem empty_id_counterexample:
  "canonical None (Some []) [] None [] None = [Id []]
   \<and> fst (build (Id []) [] []) = Inr 0
   \<and> stringify 1 (snd (build (Id []) [] [])) 0 = Some []
   \<and> concatenation None (Some []) [] None [] None = ''#''"
  by (simp add: canonical_def once_def concatenation_def delimited_def build_run
        id'_def check_simps populated_truthy constructor_def render_def getElement_def getId_def
        getClass_def getAttr_def getPseudoClass_def getPseudoElement_def)

section \<open>Rendering a combination\<close>

lemma reduce_mono:
  assumes "\<And>a s. f a = Some s \<Longrightarrow> g a = Some s"
  shows "reduce f items acc = Some r \<Longrightarrow> reduce g items acc = Some r"
proof (induction items arbitrary: acc)
  case Nil
  then show ?case by simp
next
  case (Cons x items)
  then show ?case
    by (cases x) (auto split: option.splits dest: assms)
qed

lemma stringify_Suc:
  "stringify d h a = Some s \<Longrightarrow> stringify (Suc d) h a = Some s"
proof (induction d arbitrary: a s)
  case 0
  then show ?case by simp
next
  case (Suc d)
  show ?case
  proof (cases "a < length h \<and> subBuilders (h ! a) \<noteq> []")
    case True
    then obtain r where r: "reduce (stringify d h) (subBuilders (h ! a)) [] = Some r" "s = trim r"
      using Suc.prems by auto
    have "reduce (stringify (Suc d) h) (subBuilders (h ! a)) [] = Some r"
      using reduce_mono [of "stringify d h" "stringify (Suc d) h"] Suc.IH r(1) by blast
    then show ?thesis
      using True r(2) by simp
  next
    case False
    then show ?thesis
      using Suc.prems by (auto split: if_splits)
  qed
qed

lemma stringify_append:
  "stringify d h a = Some s \<Longrightarrow> stringify d (h @ xs) a = Some s"
proof (induction d arbitrary: a s)
  case 0
  then show ?case by simp
next
  case (Suc d)
  have a: "a < length h"
    using Suc.prems by (auto split: if_splits)
  show ?case
  proof (cases "subBuilders (h ! a) \<noteq> []")
    case True
    then obtain r where r: "reduce (stringify d h) (subBuilders (h ! a)) [] = Some r" "s = trim r"
      using Suc.prems a by auto
    have "reduce (stringify d (h @ xs)) (subBuilders (h ! a)) [] = Some r"
      using reduce_mono [of "stringify d h" "stringify d (h @ xs)"] Suc.IH r(1) by blast
    then show ?thesis
      using True r(2) a by (simp add: nth_append)
  next
    case False
    then show ?thesis
      using Suc.prems a by (auto simp: nth_append)
  qed
qed

lemma trim_leading:
  "is_white_space x \<Longrightarrow> trim (x # s) = trim s"
  by (simp add: trim_def)

lemma dropWhile_clean:
  "starts_clean s \<Longrightarrow> dropWhile is_white_space s = s"
  by (cases s) (simp_all add: starts_clean_def)

lemma trim_clean:
  "starts_clean s \<Longrightarrow> ends_clean s \<Longrightarrow> trim s = s"
  by (simp add: trim_def ends_clean_def dropWhile_clean)

lemma starts_clean_append:
  "starts_clean s \<Longrightarrow> starts_clean (s @ t)"
  by (cases s) (simp_all add: starts_clean_def)

lemma ends_clean_append:
  "ends_clean s \<Longrightarrow> ends_clean (t @ s)"
  by (simp add: ends_clean_def starts_clean_append)

lemma space_is_white [simp]: "is_white_space CHR '' ''"
  by (simp add: is_white_space_def)

lemma reduce_triple:
  assumes "f a = Some ra" "f b = Some rb"
  shows "map_option trim (reduce f [Selector a, Text c, Selector b] [])
           = Some (trim (ra @ '' '' @ c @ '' '' @ rb))"
  using assms by (simp add: join_def trim_leading)

lemma builder_combine_store:
  "builder_combine a c b h
     = (Inr (length h), h @ [constructor\<lparr>subBuilders := [Selector a, Text c, Selector b]\<rparr>])"
  by (simp add: builder_combine_def cssSelectorBuilder_def new_def invoke_def combine_def
        constructor_def)

lemma stringify_builder_combine:
  assumes "stringify d h a = Some ra" and "stringify d h b = Some rb"
  shows "stringify (Suc d) (snd (builder_combine a c b h)) (length h)
           = Some (trim (ra @ '' '' @ c @ '' '' @ rb))"
proof -
  let ?n = "constructor\<lparr>subBuilders := [Selector a, Text c, Selector b]\<rparr>"
  have "stringify d (h @ [?n]) a = Some ra" "stringify d (h @ [?n]) b = Some rb"
    using assms by (simp_all add: stringify_append del: stringify.simps)
  then show ?thesis
    using reduce_triple [of "stringify d (h @ [?n])" a ra b rb c]
    by (simp add: builder_combine_store del: reduce.simps)
qed


text \<open>
  C2, amended. For all selector nodes \<open>a\<close> and \<open>b\<close> whose stringify() returns and every
  combinator string \<open>c\<close>, the facade's combine(a, c, b) returns a new node whose stringify()
  is a.stringify() + ' ' + c + ' ' + b.stringify() with the white space at both ends
  trimmed off. It is that concatenation itself when a's text is non-empty and does not
  begin with white space and b's text is non-empty and does not end with white space;
  and then, for a third such node \<open>e\<close>, the nested combine(combine(a, c, b), c', e)
  renders the flat chain a c b c' e with each combinator between single spaces (three
  spaces for the combinator ' ').
\<close>

theorem combine_stringify:
  assumes "stringify d h a = Some ra" and "stringify d h b = Some rb"
    and "stringify d h e = Some re"
  shows "fst (builder_combine a c b h) = Inr (length h)
     \<and> stringify (Suc d) (snd (builder_combine a c b h)) (length h)
         = Some (trim (ra @ '' '' @ c @ '' '' @ rb))
     \<and> (starts_clean ra \<and> ends_clean rb \<longrightarrow>
          stringify (Suc d) (snd (builder_combine a c b h)) (length h)
            = Some (ra @ '' '' @ c @ '' '' @ rb))
     \<and> (starts_clean ra \<and> ends_clean rb \<and> ends_clean re \<longrightarrow>
          fst (builder_combine (length h) c' e (snd (builder_combine a c b h)))
            = Inr (Suc (length h))
          \<and> stringify (Suc (Suc d))
              (snd (builder_combine (length h) c' e (snd (builder_combine a c b h))))
              (Suc (length h))
            = Some (ra @ '' '' @ c @ '' '' @ rb @ '' '' @ c' @ '' '' @ re))"
proof -
  let ?h1 = "snd (builder_combine a c b h)"
  let ?r1 = "ra @ '' '' @ c @ '' '' @ rb"
  have len: "length ?h1 = Suc (length h)"
    by (simp add: builder_combine_store)
  have one: "stringify (Suc d) ?h1 (length h) = Some (trim ?r1)"
    using assms(1,2) by (rule stringify_builder_combine)
  have clean: "trim ?r1 = ?r1" if "starts_clean ra" "ends_clean rb"
  proof -
    have "starts_clean ?r1"
      using that(1) by (rule starts_clean_append)
    moreover have "ends_clean ?r1"
      using ends_clean_append [OF that(2), of "ra @ '' '' @ c @ '' ''"] by simp
    ultimately show ?thesis
      by (rule trim_clean)
  qed
  have two: "stringify (Suc (Suc d)) (snd (builder_combine (length h) c' e ?h1)) (Suc (length h))
               = Some (ra @ '' '' @ c @ '' '' @ rb @ '' '' @ c' @ '' '' @ re)"
    if "starts_clean ra" "ends_clean rb" "ends_clean re"
  proof -
    have l: "stringify (Suc d) ?h1 (length h) = Some ?r1"
      using one clean [OF that(1,2)] by simp
    have "stringify d (h @ [constructor\<lparr>subBuilders := [Selector a, Text c, Selector b]\<rparr>]) e
            = Some re"
      using assms(3) by (rule stringify_append)
    then have r: "stringify (Suc d) ?h1 e = Some re"
      using stringify_Suc by (simp add: builder_combine_store del: stringify.simps)
    have "stringify (Suc (Suc d)) (snd (builder_combine (length h) c' e ?h1)) (length ?h1)
            = Some (trim (?r1 @ '' '' @ c' @ '' '' @ re))"
      using l r by (rule stringify_builder_combine)
    moreover have "trim (?r1 @ '' '' @ c' @ '' '' @ re) = ?r1 @ '' '' @ c' @ '' '' @ re"
    proof (rule trim_clean)
      show "starts_clean (?r1 @ '' '' @ c' @ '' '' @ re)"
        using starts_clean_append [OF that(1)] by simp
      show "ends_clean (?r1 @ '' '' @ c' @ '' '' @ re)"
        using ends_clean_append [OF that(3), of "?r1 @ '' '' @ c' @ '' ''"] by simp
    qed
    ultimately show ?thesis
      using len by simp
  qed
  have three: "fst (builder_combine (length h) c' e ?h1) = Inr (Suc (length h))"
    using len by (simp add: builder_combine_store [of "length h" c' e ?h1])
  have zero: "fst (builder_combine a c b h) = Inr (length h)"
    by (simp add: builder_combine_store)
  show ?thesis
    using zero one clean two three by presburger
qed


lemma render_element_only:
  "render (constructor\<lparr>myElement := Some v\<rparr>) = v"
  by (simp add: render_def constructor_def getElement_def getId_def getClass_def getAttr_def
        getPseudoClass_def getPseudoElement_def)

lemma build_element:
  "build (Element v) [] h = (Inr (length h), h @ [constructor\<lparr>myElement := Some v\<rparr>])"
  by (simp add: build_run element_def check_simps populated_truthy constructor_def)

theorem combine_stringify_witness:
  "stringify (Suc 0) [constructor\<lparr>myElement := Some ''div''\<rparr>,
        constructor\<lparr>myElement := Some ''p''\<rparr>, constructor\<lparr>myElement := Some ''td''\<rparr>] 0
     = Some ''div''
   \<and> stringify (Suc 0) [constructor\<lparr>myElement := Some ''div''\<rparr>,
        constructor\<lparr>myElement := Some ''p''\<rparr>, constructor\<lparr>myElement := Some ''td''\<rparr>] 1
     = Some ''p''
   \<and> stringify (Suc 0) [constructor\<lparr>myElement := Some ''div''\<rparr>,
        constructor\<lparr>myElement := Some ''p''\<rparr>, constructor\<lparr>myElement := Some ''td''\<rparr>] 2
     = Some ''td''
   \<and> starts_clean ''div'' \<and> ends_clean ''p'' \<and> ends_clean ''td''
   \<and> stringify (Suc (Suc 0))
        (snd (builder_combine 0 ''~'' 1 [constructor\<lparr>myElement := Some ''div''\<rparr>,
           constructor\<lparr>myElement := Some ''p''\<rparr>, constructor\<lparr>myElement := Some ''td''\<rparr>])) 3
     = Some ''div ~ p''
   \<and> stringify (Suc (Suc (Suc 0)))
        (snd (builder_combine 3 '' '' 2
           (snd (builder_combine 0 ''~'' 1 [constructor\<lparr>myElement := Some ''div''\<rparr>,
              constructor\<lparr>myElement := Some ''p''\<rparr>, constructor\<lparr>myElement := Some ''td''\<rparr>])))) 4
     = Some ''div ~ p   td''"
proof -
  let ?h = "[constructor\<lparr>myElement := Some ''div''\<rparr>,
        constructor\<lparr>myElement := Some ''p''\<rparr>, constructor\<lparr>myElement := Some ''td''\<rparr>]"
  have s: "subBuilders (constructor\<lparr>myElement := Some v\<rparr>) = []" for v
    by (simp add: constructor_def)
  have a: "stringify (Suc 0) ?h 0 = Some ''div''"
    by (simp add: s render_element_only)
  have b: "stringify (Suc 0) ?h 1 = Some ''p''"
    by (simp add: s render_element_only)
  have e: "stringify (Suc 0) ?h 2 = Some ''td''"
    by (simp add: s render_element_only)
  have c: "starts_clean ''div''" "ends_clean ''p''" "ends_clean ''td''"
    by (simp_all add: starts_clean_def ends_clean_def is_white_space_def)
  have l: "length ?h = 3"
    by simp
  note t = combine_stringify [OF a b e, of "''~''" "'' ''", unfolded l]
  have r1: "stringify (Suc (Suc 0)) (snd (builder_combine 0 ''~'' 1 ?h)) 3
     = Some (''div'' @ '' '' @ ''~'' @ '' '' @ ''p'')"
    using t c by blast
  have r2: "stringify (Suc (Suc (Suc 0)))
        (snd (builder_combine 3 '' '' 2 (snd (builder_combine 0 ''~'' 1 ?h)))) (Suc 3)
     = Some (''div'' @ '' '' @ ''~'' @ '' '' @ ''p'' @ '' '' @ '' '' @ '' '' @ ''td'')"
    using t c by blast
  have n: "Suc 3 = 4"
    by simp
  show ?thesis
    using a b e c r1 r2 unfolding n append.simps by blast
qed

theorem combine_empty_right_counterexample:
  "build (Element ''a'') [] [] = (Inr 0, [constructor\<lparr>myElement := Some ''a''\<rparr>])
   \<and> build (Element []) [] [constructor\<lparr>myElement := Some ''a''\<rparr>]
     = (Inr 1, [constructor\<lparr>myElement := Some ''a''\<rparr>, constructor\<lparr>myElement := Some []\<rparr>])
   \<and> stringify (Suc 0)
        [constructor\<lparr>myElement := Some ''a''\<rparr>, constructor\<lparr>myElement := Some []\<rparr>] 0
     = Some ''a''
   \<and> stringify (Suc 0)
        [constructor\<lparr>myElement := Some ''a''\<rparr>, constructor\<lparr>myElement := Some []\<rparr>] 1
     = Some []
   \<and> stringify (Suc (Suc 0))
        (snd (builder_combine 0 ''+'' 1
           [constructor\<lparr>myElement := Some ''a''\<rparr>, constructor\<lparr>myElement := Some []\<rparr>])) 2
     = Some ''a +''
   \<and> ''a +'' \<noteq> ''a'' @ '' '' @ ''+'' @ '' '' @ []"
proof -
  have s: "subBuilders (constructor\<lparr>myElement := Some v\<rparr>) = []" for v
    by (simp add: constructor_def)
  have t: "trim ''   a + '' = ''a +''"
    by (simp add: trim_def is_white_space_def)
  show ?thesis
    using build_element [of "''a''" "[]"]
      build_element [of "[]" "[constructor\<lparr>myElement := Some ''a''\<rparr>]"]
    by (simp add: s render_element_only builder_combine_store join_def t)
qed

section \<open>Simple selectors and combinator nodes\<close>

lemma perform_fragment_subBuilders:
  "is_fragment c \<Longrightarrow> subBuilders (snd (perform c s)) = subBuilders s"
  by (cases c)
     (auto simp: element_def id'_def class'_def attr_def pseudoClass_def pseudoElement_def
        split: sum.splits)

lemma run_fragments_subBuilders:
  "list_all is_fragment cs \<Longrightarrow> subBuilders (snd (run cs s)) = subBuilders s"
proof (induction cs arbitrary: s)
  case Nil
  then show ?case by simp
next
  case (Cons c cs)
  have k: "subBuilders (snd (perform c s)) = subBuilders s"
    using Cons.prems by (simp add: perform_fragment_subBuilders)
  show ?case
  proof (cases "perform c s")
    case (Pair r s')
    then show ?thesis
      using Cons k by (cases r) auto
  qed
qed



lemma perform_combine_keeps:
  "\<not> is_fragment c \<Longrightarrow>
     fst (perform c s) = Inr () \<and> populated K (snd (perform c s)) = populated K s
     \<and> subBuilders (snd (perform c s)) \<noteq> []"
  by (cases c; cases K) (simp_all add: combine_def)

lemma run_combines:
  "list_all (\<lambda>x. \<not> is_fragment x) cs \<Longrightarrow>
     fst (run cs s) = Inr () \<and> populated K (snd (run cs s)) = populated K s
     \<and> (subBuilders s \<noteq> [] \<longrightarrow> subBuilders (snd (run cs s)) \<noteq> [])"
proof (induction cs arbitrary: s)
  case Nil
  then show ?case by simp
next
  case (Cons c cs)
  obtain r s' where p: "perform c s = (r, s')"
    by (cases "perform c s")
  have k: "r = Inr ()" "populated K s' = populated K s" "subBuilders s' \<noteq> []"
    using perform_combine_keeps [of c s K] Cons.prems p by simp_all
  have "list_all (\<lambda>x. \<not> is_fragment x) cs"
    using Cons.prems by simp
  from Cons.IH [OF this, of s'] show ?case
    using p k by simp
qed

lemma build_address:
  "fst (build c cs h) = Inr a \<Longrightarrow> a = length h"
  unfolding build_run by (cases "run (c # cs) constructor") (auto split: sum.splits)

lemma build_node:
  "snd (build c cs h) ! length h = snd (run (c # cs) constructor)"
  unfolding build_run by (cases "run (c # cs) constructor") (auto split: sum.splits)

text \<open>
  C5, amended. The node a facade call returns is the new one. Every node built through
  the facade by fragment calls only (a fragment entry, then fragment methods) is a simple
  selector: its sub-builder list is empty. Every node built through the facade by
  combine calls only (the combine entry, then any number of combine calls on the node)
  is a combinator node: every call succeeds, its sub-builder list is not empty and no
  fragment field is populated.
\<close>

theorem facade_nodes_simple_or_combinator:
  "(fst (build c cs h) = Inr a \<longrightarrow> a = length h)
   \<and> (list_all is_fragment (c # cs) \<longrightarrow> subBuilders (snd (build c cs h) ! length h) = [])
   \<and> (list_all (\<lambda>x. \<not> is_fragment x) (c # cs) \<longrightarrow>
        fst (build c cs h) = Inr (length h)
        \<and> subBuilders (snd (build c cs h) ! length h) \<noteq> []
        \<and> list_all (\<lambda>K. \<not> populated K (snd (build c cs h) ! length h)) order)"
proof -
  have simple: "subBuilders (snd (build c cs h) ! length h) = []"
    if "list_all is_fragment (c # cs)"
    using run_fragments_subBuilders [OF that, of constructor]
    by (simp only: build_node) (simp add: constructor_def)
  have combi: "fst (build c cs h) = Inr (length h)
        \<and> subBuilders (snd (build c cs h) ! length h) \<noteq> []
        \<and> list_all (\<lambda>K. \<not> populated K (snd (build c cs h) ! length h)) order"
    if f: "list_all (\<lambda>x. \<not> is_fragment x) (c # cs)"
  proof -
    obtain r s where p: "perform c constructor = (r, s)"
      by (cases "perform c constructor")
    have c: "\<not> is_fragment c" and cs: "list_all (\<lambda>x. \<not> is_fragment x) cs"
      using f by simp_all
    have k: "r = Inr ()" "\<And>K. populated K s = populated K constructor" "subBuilders s \<noteq> []"
      using perform_combine_keeps [OF c, of constructor] p by simp_all
    have n: "\<not> populated K constructor" for K
      by (cases K) (simp_all add: populated_truthy constructor_def)
    have ok: "fst (run (c # cs) constructor) = Inr ()"
      and sb: "subBuilders (snd (run (c # cs) constructor)) \<noteq> []"
      and np: "\<And>K. \<not> populated K (snd (run (c # cs) constructor))"
      using run_combines [OF cs, of s] p k n by simp_all
    have "fst (build c cs h) = Inr (length h)"
      using ok unfolding build_run
      by (cases "run (c # cs) constructor") (auto split: sum.splits)
    then show ?thesis
      using sb np by (simp add: build_node list_all_iff del: run.simps)
  qed
  show ?thesis
    using simple combi build_address [of c cs h a] by blast
qed

theorem facade_nodes_simple_or_combinator_witness:
  "list_all is_fragment (Id ''main'' # [Class ''container''])
   \<and> fst (build (Id ''main'') [Class ''container''] []) = Inr 0
   \<and> subBuilders (snd (build (Id ''main'') [Class ''container''] []) ! 0) = []
   \<and> list_all (\<lambda>x. \<not> is_fragment x)
        (Combine (Selector 0) (Text ''+'') (Selector 1) # [Combine (Selector 0) (Text ''~'') (Selector 1)])
   \<and> fst (build (Combine (Selector 0) (Text ''+'') (Selector 1))
             [Combine (Selector 0) (Text ''~'') (Selector 1)]
             [constructor\<lparr>myElement := Some ''a''\<rparr>, constructor\<lparr>myElement := Some ''b''\<rparr>]) = Inr 2
   \<and> subBuilders
        (snd (build (Combine (Selector 0) (Text ''+'') (Selector 1))
             [Combine (Selector 0) (Text ''~'') (Selector 1)]
             [constructor\<lparr>myElement := Some ''a''\<rparr>, constructor\<lparr>myElement := Some ''b''\<rparr>]) ! 2) \<noteq> []
   \<and> list_all (\<lambda>K. \<not> populated K
        (snd (build (Combine (Selector 0) (Text ''+'') (Selector 1))
             [Combine (Selector 0) (Text ''~'') (Selector 1)]
             [constructor\<lparr>myElement := Some ''a''\<rparr>, constructor\<lparr>myElement := Some ''b''\<rparr>]) ! 2)) order"
proof -
  let ?h = "[constructor\<lparr>myElement := Some ''a''\<rparr>, constructor\<lparr>myElement := Some ''b''\<rparr>]"
  let ?c = "Combine (Selector 0) (Text ''+'') (Selector 1)"
  let ?d = "Combine (Selector 0) (Text ''~'') (Selector 1)"
  have f: "list_all is_fragment (Id ''main'' # [Class ''container''])"
    by simp
  have g: "list_all (\<lambda>x. \<not> is_fragment x) (?c # [?d])"
    by simp
  have r: "fst (build (Id ''main'') [Class ''container''] []) = Inr 0"
    by (simp add: build_run id'_def class'_def check_simps populated_truthy constructor_def)
  have l: "length ?h = 2" "length ([] :: store) = 0"
    by simp_all
  note w1 = facade_nodes_simple_or_combinator [of "Id ''main''" "[Class ''container'']" "[]" 0,
      unfolded l]
  note w2 = facade_nodes_simple_or_combinator [of ?c "[?d]" ?h 2, unfolded l]
  show ?thesis
    using f g r w1 w2 by blast
qed

theorem fragment_on_combination_counterexample:
  "fst (build (Combine (Selector 0) (Text ''+'') (Selector 1)) [Element ''x'']
          [constructor\<lparr>myElement := Some ''a''\<rparr>, constructor\<lparr>myElement := Some ''b''\<rparr>])
     = Inr 2
   \<and> populated MyElement
        (snd (build (Combine (Selector 0) (Text ''+'') (Selector 1)) [Element ''x'']
          [constructor\<lparr>myElement := Some ''a''\<rparr>, constructor\<lparr>myElement := Some ''b''\<rparr>]) ! 2)
   \<and> subBuilders
        (snd (build (Combine (Selector 0) (Text ''+'') (Selector 1)) [Element ''x'']
          [constructor\<lparr>myElement := Some ''a''\<rparr>, constructor\<lparr>myElement := Some ''b''\<rparr>]) ! 2)
     = [Selector 0, Text ''+'', Selector 1]"
  by (simp add: build_run combine_def element_def check_simps populated_truthy constructor_def)

section \<open>Fresh nodes and what a chain can change\<close>








end
